theory Spec2Isabelle
  imports Main "HOL-Library.FSet" "HOL-Library.Sublist"
begin

section \<open>The event-type-indexed ruleset of the Falco engine\<close>

text \<open>
  A shallow embedding of \<^verbatim>\<open>userspace/engine/evttype_index_ruleset.cpp\<close>.

  \<^item> A \<^verbatim>\<open>std::shared_ptr<filter_wrapper>\<close> is the address of the wrapper, a natural number;
    the wrapper objects live in a store from addresses to \<open>filter_wrapper\<close> values.
    \<^verbatim>\<open>std::find\<close> on a list of shared pointers compares addresses, which is list membership
    of the address.
  \<^item> \<^verbatim>\<open>filter_wrapper_list\<close> is a list of addresses, \<^verbatim>\<open>std::set\<close> a finite set
    (iterated in ascending order), \<^verbatim>\<open>std::vector\<close> a list.
  \<^item> Event codes, event types and ruleset ids are natural numbers: the source widens the
    16-bit values to \<^verbatim>\<open>size_t\<close> before it adds one or compares them with a size,
    so no arithmetic of the file can wrap.
  \<^item> \<^verbatim>\<open>sinsp_filter::run\<close> is a predicate on the event. The dispatch functions
    thread a list \<open>evaluated\<close> with the address of every wrapper whose filter was run, in the
    order of the calls, next to the output parameter of the source.
\<close>

subsection \<open>Data\<close>

record falco_rule =
  name :: string
  tags :: "string fset"
  source :: string

record 'p sinsp_evt =
  get_type :: nat
  payload :: 'p

record 'p filter_wrapper =
  rule :: falco_rule
  sc_codes :: "nat fset"
  event_codes :: "nat fset"
  filter_w :: "'p sinsp_evt \<Rightarrow> bool"

type_synonym 'p wrapper_store = "nat \<Rightarrow> 'p filter_wrapper"

type_synonym filter_wrapper_list = "nat list"

record ruleset_filters =
  m_filter_by_event_type :: "filter_wrapper_list list"
  m_filter_all_event_types :: filter_wrapper_list
  m_filters :: "nat fset"

text \<open>The default constructor \<^verbatim>\<open>ruleset_filters()\<close>: every container empty.\<close>

definition new_ruleset_filters :: ruleset_filters where
  "new_ruleset_filters =
     \<lparr>m_filter_by_event_type = [], m_filter_all_event_types = [], m_filters = {||}\<rparr>"

subsection \<open>\<^verbatim>\<open>ruleset_filters\<close>: indexing\<close>

definition add_wrapper_to_list :: "filter_wrapper_list \<Rightarrow> nat \<Rightarrow> filter_wrapper_list" where
  "add_wrapper_to_list wrappers wrap =
     (if wrap \<notin> set wrappers then wrappers @ [wrap] else wrappers)"

text \<open>\<^verbatim>\<open>std::find\<close> gives the first position holding \<open>wrap\<close>, and \<^verbatim>\<open>erase\<close> drops that one.\<close>

definition remove_wrapper_from_list :: "filter_wrapper_list \<Rightarrow> nat \<Rightarrow> filter_wrapper_list" where
  "remove_wrapper_from_list wrappers wrap =
     (if wrap \<in> set wrappers then remove1 wrap wrappers else wrappers)"

text \<open>\<^verbatim>\<open>std::vector::resize\<close>: new slots are empty lists, surplus slots are dropped.\<close>

definition resize :: "filter_wrapper_list list \<Rightarrow> nat \<Rightarrow> filter_wrapper_list list" where
  "resize v n = (if length v < n then v @ replicate (n - length v) [] else take n v)"

text \<open>The body of the loop of \<^verbatim>\<open>add_filter\<close> over the event codes of the wrapper.\<close>

definition add_filter_etype :: "nat \<Rightarrow> nat \<Rightarrow> filter_wrapper_list list \<Rightarrow> filter_wrapper_list list" where
  "add_filter_etype wrap etype v =
     (let v1 = (if length v \<le> etype then resize v (etype + 1) else v)
      in v1[etype := add_wrapper_to_list (v1 ! etype) wrap])"

definition add_filter :: "'p wrapper_store \<Rightarrow> nat \<Rightarrow> ruleset_filters \<Rightarrow> ruleset_filters" where
  "add_filter M wrap rf =
     (let rf1 =
        (if event_codes (M wrap) = {||}
         then rf\<lparr>m_filter_all_event_types :=
                   add_wrapper_to_list (m_filter_all_event_types rf) wrap\<rparr>
         else rf\<lparr>m_filter_by_event_type :=
                   fold (add_filter_etype wrap) (sorted_list_of_fset (event_codes (M wrap)))
                     (m_filter_by_event_type rf)\<rparr>)
      in rf1\<lparr>m_filters := finsert wrap (m_filters rf1)\<rparr>)"

definition remove_filter_etype :: "nat \<Rightarrow> nat \<Rightarrow> filter_wrapper_list list \<Rightarrow> filter_wrapper_list list" where
  "remove_filter_etype wrap etype v =
     (if etype < length v then v[etype := remove_wrapper_from_list (v ! etype) wrap] else v)"

definition remove_filter :: "'p wrapper_store \<Rightarrow> nat \<Rightarrow> ruleset_filters \<Rightarrow> ruleset_filters" where
  "remove_filter M wrap rf =
     (let rf1 =
        (if event_codes (M wrap) = {||}
         then rf\<lparr>m_filter_all_event_types :=
                   remove_wrapper_from_list (m_filter_all_event_types rf) wrap\<rparr>
         else rf\<lparr>m_filter_by_event_type :=
                   fold (remove_filter_etype wrap) (sorted_list_of_fset (event_codes (M wrap)))
                     (m_filter_by_event_type rf)\<rparr>)
      in rf1\<lparr>m_filters := m_filters rf1 |-| {|wrap|}\<rparr>)"

definition num_filters :: "ruleset_filters \<Rightarrow> nat" where
  "num_filters rf = fcard (m_filters rf)"

subsection \<open>\<^verbatim>\<open>ruleset_filters\<close>: dispatch\<close>

text \<open>
  The loop of the single-match form over one list of wrappers: it returns at the first
  filter that accepts the event, after writing the rule to \<open>match\<close>.
\<close>

fun run_first :: "'p wrapper_store \<Rightarrow> 'p sinsp_evt \<Rightarrow> filter_wrapper_list \<Rightarrow>
    falco_rule \<Rightarrow> nat list \<Rightarrow> bool \<times> falco_rule \<times> nat list" where
  "run_first M evt [] match evaluated = (False, match, evaluated)"
| "run_first M evt (wrap # wrappers) match evaluated =
     (if filter_w (M wrap) evt then (True, rule (M wrap), evaluated @ [wrap])
      else run_first M evt wrappers match (evaluated @ [wrap]))"

definition ruleset_filters_run :: "'p wrapper_store \<Rightarrow> ruleset_filters \<Rightarrow> 'p sinsp_evt \<Rightarrow>
    falco_rule \<Rightarrow> nat list \<Rightarrow> bool \<times> falco_rule \<times> nat list" where
  "ruleset_filters_run M rf evt match evaluated =
     (let (found, match1, evaluated1) =
        (if get_type evt < length (m_filter_by_event_type rf)
         then run_first M evt (m_filter_by_event_type rf ! get_type evt) match evaluated
         else (False, match, evaluated))
      in if found then (True, match1, evaluated1)
         else run_first M evt (m_filter_all_event_types rf) match1 evaluated1)"

text \<open>
  The loop of the all-matches form over one list of wrappers: every accepting wrapper
  pushes its rule and sets \<open>match_found\<close>.
\<close>

fun run_every :: "'p wrapper_store \<Rightarrow> 'p sinsp_evt \<Rightarrow> filter_wrapper_list \<Rightarrow>
    bool \<Rightarrow> falco_rule list \<Rightarrow> nat list \<Rightarrow> bool \<times> falco_rule list \<times> nat list" where
  "run_every M evt [] match_found matches evaluated = (match_found, matches, evaluated)"
| "run_every M evt (wrap # wrappers) match_found matches evaluated =
     (if filter_w (M wrap) evt
      then run_every M evt wrappers True (matches @ [rule (M wrap)]) (evaluated @ [wrap])
      else run_every M evt wrappers match_found matches (evaluated @ [wrap]))"

definition ruleset_filters_run_all :: "'p wrapper_store \<Rightarrow> ruleset_filters \<Rightarrow> 'p sinsp_evt \<Rightarrow>
    falco_rule list \<Rightarrow> nat list \<Rightarrow> bool \<times> falco_rule list \<times> nat list" where
  "ruleset_filters_run_all M rf evt matches evaluated =
     (let (match_found, matches1, evaluated1) =
        (if get_type evt < length (m_filter_by_event_type rf)
         then run_every M evt (m_filter_by_event_type rf ! get_type evt) False matches evaluated
         else (False, matches, evaluated))
      in if match_found then (True, matches1, evaluated1)
         else run_every M evt (m_filter_all_event_types rf) match_found matches1 evaluated1)"

subsection \<open>The registry \<^verbatim>\<open>evttype_index_ruleset\<close>\<close>

text \<open>
  \<open>wrappers\<close> is the store of the wrapper objects that the shared pointers of the registry
  point to; \<open>m_all_filters\<close> is the member \<^verbatim>\<open>m_filters\<close> of the outer class (the name
  \<open>m_filters\<close> is taken by the member of \<^verbatim>\<open>ruleset_filters\<close>). Each element of
  \<^verbatim>\<open>m_rulesets\<close> is owned by its slot alone, so the vector is a list of values.
\<close>

record 'p evttype_index_ruleset =
  wrappers :: "'p wrapper_store"
  m_rulesets :: "ruleset_filters list"
  m_all_filters :: "nat fset"

datatype sinsp_exception = Sinsp_exception string

datatype falco_exception = Falco_exception string

datatype match_type = exact | substring | wildcard

text \<open>
  Modelled from the spec: the constants \<^verbatim>\<open>falco_common::syscall_source\<close>,
  \<^verbatim>\<open>PPME_PLUGINEVENT_E\<close> and \<^verbatim>\<open>PPME_ASYNCEVENT_E\<close> are declared in headers that are
  not part of the source file. The spec speaks of the syscall origin, of the plugin-event
  code and of the async-event code; the values below stand for those of the headers, and
  no theorem depends on them.
\<close>

definition syscall_source :: string where
  "syscall_source = ''syscall''"

definition PPME_PLUGINEVENT_E :: nat where
  "PPME_PLUGINEVENT_E = 322"

definition PPME_ASYNCEVENT_E :: nat where
  "PPME_ASYNCEVENT_E = 402"

text \<open>
  \<^verbatim>\<open>add\<close>. The two walkers of the condition AST, \<^verbatim>\<open>ppm_sc_codes\<close> and
  \<^verbatim>\<open>ppm_event_codes\<close>, belong to libsinsp and are parameters; each returns its set or
  raises a \<^verbatim>\<open>sinsp_exception\<close>. \<open>p\<close> is the address that \<^verbatim>\<open>make_shared\<close> returns.
  The wrapper is a local value until its pointer is inserted into the set, which is where
  the store changes. The result pairs the outcome (\<open>Inl\<close> the exception that leaves the
  function) with the registry after the call.
\<close>

definition add :: "('c \<Rightarrow> sinsp_exception + nat fset) \<Rightarrow> ('c \<Rightarrow> sinsp_exception + nat fset) \<Rightarrow>
    nat \<Rightarrow> falco_rule \<Rightarrow> ('p sinsp_evt \<Rightarrow> bool) \<Rightarrow> 'c \<Rightarrow> 'p evttype_index_ruleset \<Rightarrow>
    (falco_exception + unit) \<times> 'p evttype_index_ruleset" where
  "add ppm_sc_codes ppm_event_codes p r f condition s =
     (let wrap = \<lparr>rule = r, sc_codes = {||}, event_codes = {||}, filter_w = f\<rparr>;
          tried =
            (if source r = syscall_source
             then (case ppm_sc_codes condition of
                     Inl e \<Rightarrow> Inl e
                   | Inr sc \<Rightarrow>
                       (case ppm_event_codes condition of
                          Inl e \<Rightarrow> Inl e
                        | Inr ec \<Rightarrow> Inr (wrap\<lparr>sc_codes := sc, event_codes := ec\<rparr>)))
             else Inr (wrap\<lparr>sc_codes := {||}, event_codes := {|PPME_PLUGINEVENT_E|}\<rparr>))
      in case tried of
           Inl (Sinsp_exception what) \<Rightarrow> (Inl (Falco_exception what), s)
         | Inr wrap1 \<Rightarrow>
             (let wrap2 = wrap1\<lparr>event_codes := finsert PPME_ASYNCEVENT_E (event_codes wrap1)\<rparr>
              in (Inr (), s\<lparr>wrappers := (wrappers s)(p := wrap2),
                            m_all_filters := finsert p (m_all_filters s)\<rparr>)))"

definition clear :: "'p evttype_index_ruleset \<Rightarrow> 'p evttype_index_ruleset" where
  "clear s =
     s\<lparr>m_rulesets := fold (\<lambda>i rs. rs[i := new_ruleset_filters])
                        [0 ..< length (m_rulesets s)] (m_rulesets s),
       m_all_filters := {||}\<rparr>"

text \<open>The loop \<^verbatim>\<open>while(m_rulesets.size() < (size_t)ruleset_id + 1)\<close>.\<close>

function grow_rulesets :: "ruleset_filters list \<Rightarrow> nat \<Rightarrow> ruleset_filters list" where
  "grow_rulesets rs ruleset_id =
     (if length rs < ruleset_id + 1 then grow_rulesets (rs @ [new_ruleset_filters]) ruleset_id
      else rs)"
  by pat_completeness auto
termination
  by (relation "measure (\<lambda>(rs, ruleset_id). ruleset_id + 1 - length rs)") auto

declare grow_rulesets.simps [simp del]

text \<open>
  \<^verbatim>\<open>std::string::find\<close> from position 0: the first position at which the pattern
  occurs, \<open>None\<close> for \<^verbatim>\<open>npos\<close>.
\<close>

fun string_find :: "string \<Rightarrow> string \<Rightarrow> nat option" where
  "string_find [] pat = (if pat = [] then Some 0 else None)"
| "string_find (c # cs) pat =
     (if prefix pat (c # cs) then Some 0 else map_option Suc (string_find cs pat))"

text \<open>
  The \<^verbatim>\<open>switch\<close> of \<^verbatim>\<open>enable_disable\<close>. \<^verbatim>\<open>falco::utils::matches_wildcard\<close> is
  defined in another file and is a parameter.
\<close>

definition name_matches :: "(string \<Rightarrow> string \<Rightarrow> bool) \<Rightarrow> match_type \<Rightarrow> string \<Rightarrow> string \<Rightarrow> bool" where
  "name_matches matches_wildcard match pattern nm =
     (case match of
        exact \<Rightarrow>
          (let pos = string_find nm pattern
           in pattern = [] \<or> (pos = Some 0 \<and> length pattern = length nm))
      | substring \<Rightarrow> pattern = [] \<or> string_find nm pattern \<noteq> None
      | wildcard \<Rightarrow> matches_wildcard pattern nm)"

text \<open>The body of the loop over \<^verbatim>\<open>m_filters\<close>, shared by the two selecting operations.\<close>

definition enable_disable_wrap :: "'p wrapper_store \<Rightarrow> bool \<Rightarrow> nat \<Rightarrow> nat \<Rightarrow>
    ruleset_filters list \<Rightarrow> ruleset_filters list" where
  "enable_disable_wrap M enabled ruleset_id wrap rs =
     (if enabled then rs[ruleset_id := add_filter M wrap (rs ! ruleset_id)]
      else rs[ruleset_id := remove_filter M wrap (rs ! ruleset_id)])"

definition enable_disable :: "(string \<Rightarrow> string \<Rightarrow> bool) \<Rightarrow> string \<Rightarrow> match_type \<Rightarrow> bool \<Rightarrow> nat \<Rightarrow>
    'p evttype_index_ruleset \<Rightarrow> 'p evttype_index_ruleset" where
  "enable_disable matches_wildcard pattern match enabled ruleset_id s =
     s\<lparr>m_rulesets :=
         fold (\<lambda>wrap rs.
                 if name_matches matches_wildcard match pattern (name (rule (wrappers s wrap)))
                 then enable_disable_wrap (wrappers s) enabled ruleset_id wrap rs
                 else rs)
           (sorted_list_of_fset (m_all_filters s))
           (grow_rulesets (m_rulesets s) ruleset_id)\<rparr>"

definition enable :: "(string \<Rightarrow> string \<Rightarrow> bool) \<Rightarrow> string \<Rightarrow> match_type \<Rightarrow> nat \<Rightarrow>
    'p evttype_index_ruleset \<Rightarrow> 'p evttype_index_ruleset" where
  "enable matches_wildcard pattern match ruleset_id s =
     enable_disable matches_wildcard pattern match True ruleset_id s"

definition disable :: "(string \<Rightarrow> string \<Rightarrow> bool) \<Rightarrow> string \<Rightarrow> match_type \<Rightarrow> nat \<Rightarrow>
    'p evttype_index_ruleset \<Rightarrow> 'p evttype_index_ruleset" where
  "disable matches_wildcard pattern match ruleset_id s =
     enable_disable matches_wildcard pattern match False ruleset_id s"

text \<open>
  \<^verbatim>\<open>std::set_intersection\<close> of two \<^verbatim>\<open>std::set\<close>s, collected in a \<^verbatim>\<open>std::set\<close>, is the
  intersection of the two finite sets.
\<close>

definition enable_disable_tags :: "string fset \<Rightarrow> bool \<Rightarrow> nat \<Rightarrow>
    'p evttype_index_ruleset \<Rightarrow> 'p evttype_index_ruleset" where
  "enable_disable_tags tgs enabled ruleset_id s =
     s\<lparr>m_rulesets :=
         fold (\<lambda>wrap rs.
                 (let intersect = tgs |\<inter>| tags (rule (wrappers s wrap))
                  in if intersect \<noteq> {||}
                     then enable_disable_wrap (wrappers s) enabled ruleset_id wrap rs
                     else rs))
           (sorted_list_of_fset (m_all_filters s))
           (grow_rulesets (m_rulesets s) ruleset_id)\<rparr>"

definition enable_tags :: "string fset \<Rightarrow> nat \<Rightarrow> 'p evttype_index_ruleset \<Rightarrow> 'p evttype_index_ruleset" where
  "enable_tags tgs ruleset_id s = enable_disable_tags tgs True ruleset_id s"

definition disable_tags :: "string fset \<Rightarrow> nat \<Rightarrow> 'p evttype_index_ruleset \<Rightarrow> 'p evttype_index_ruleset" where
  "disable_tags tgs ruleset_id s = enable_disable_tags tgs False ruleset_id s"

text \<open>
  The queries are methods of the mutable object: each returns its value together with the
  registry it leaves behind.
\<close>

definition enabled_count :: "nat \<Rightarrow> 'p evttype_index_ruleset \<Rightarrow> nat \<times> 'p evttype_index_ruleset" where
  "enabled_count ruleset_id s =
     (let s1 = s\<lparr>m_rulesets := grow_rulesets (m_rulesets s) ruleset_id\<rparr>
      in (num_filters (m_rulesets s1 ! ruleset_id), s1))"

definition run :: "'p evttype_index_ruleset \<Rightarrow> 'p sinsp_evt \<Rightarrow> falco_rule \<Rightarrow> nat \<Rightarrow> nat list \<Rightarrow>
    (bool \<times> falco_rule \<times> nat list) \<times> 'p evttype_index_ruleset" where
  "run s evt match ruleset_id evaluated =
     (if length (m_rulesets s) < ruleset_id + 1 then ((False, match, evaluated), s)
      else (ruleset_filters_run (wrappers s) (m_rulesets s ! ruleset_id) evt match evaluated, s))"

definition run_all :: "'p evttype_index_ruleset \<Rightarrow> 'p sinsp_evt \<Rightarrow> falco_rule list \<Rightarrow> nat \<Rightarrow> nat list \<Rightarrow>
    (bool \<times> falco_rule list \<times> nat list) \<times> 'p evttype_index_ruleset" where
  "run_all s evt matches ruleset_id evaluated =
     (if length (m_rulesets s) < ruleset_id + 1 then ((False, matches, evaluated), s)
      else (ruleset_filters_run_all (wrappers s) (m_rulesets s ! ruleset_id) evt matches evaluated, s))"

subsection \<open>Specification predicates\<close>

text \<open>The bucket of an event type: the list stored at that index, empty beyond the vector.\<close>

definition bucket_of :: "filter_wrapper_list list \<Rightarrow> nat \<Rightarrow> filter_wrapper_list" where
  "bucket_of v t = (if t < length v then v ! t else [])"

text \<open>
  The invariant of a \<^verbatim>\<open>ruleset_filters\<close> relative to the store of wrappers: every member
  is in the catch-all list when its event codes are empty and otherwise in the bucket of
  each of its codes; a bucket holds only members that have the code of the bucket; the
  catch-all list holds only members without event codes; no list repeats a wrapper.
\<close>

definition ruleset_inv :: "'p wrapper_store \<Rightarrow> ruleset_filters \<Rightarrow> bool" where
  "ruleset_inv M rf \<longleftrightarrow>
     (\<forall>wrap |\<in>| m_filters rf.
        if event_codes (M wrap) = {||} then wrap \<in> set (m_filter_all_event_types rf)
        else \<forall>t |\<in>| event_codes (M wrap).
               t < length (m_filter_by_event_type rf) \<and>
               wrap \<in> set (m_filter_by_event_type rf ! t)) \<and>
     (\<forall>t < length (m_filter_by_event_type rf). \<forall>wrap \<in> set (m_filter_by_event_type rf ! t).
        wrap |\<in>| m_filters rf \<and> t |\<in>| event_codes (M wrap)) \<and>
     (\<forall>wrap \<in> set (m_filter_all_event_types rf).
        wrap |\<in>| m_filters rf \<and> event_codes (M wrap) = {||}) \<and>
     distinct (m_filter_all_event_types rf) \<and>
     (\<forall>t < length (m_filter_by_event_type rf). distinct (m_filter_by_event_type rf ! t))"

text \<open>
  The registries that the public operations can build, starting from the constructor
  (no ruleset, no wrapper; the store holds whatever the memory holds).
\<close>

inductive reachable :: "('c \<Rightarrow> sinsp_exception + nat fset) \<Rightarrow> ('c \<Rightarrow> sinsp_exception + nat fset) \<Rightarrow>
    (string \<Rightarrow> string \<Rightarrow> bool) \<Rightarrow> 'p evttype_index_ruleset \<Rightarrow> bool"
  for ppm_sc_codes ppm_event_codes matches_wildcard where
  constructed:
    "reachable ppm_sc_codes ppm_event_codes matches_wildcard
       \<lparr>wrappers = M, m_rulesets = [], m_all_filters = {||}\<rparr>"
| after_add:
    "reachable ppm_sc_codes ppm_event_codes matches_wildcard s \<Longrightarrow>
     reachable ppm_sc_codes ppm_event_codes matches_wildcard
       (snd (add ppm_sc_codes ppm_event_codes p r f condition s))"
| after_clear:
    "reachable ppm_sc_codes ppm_event_codes matches_wildcard s \<Longrightarrow>
     reachable ppm_sc_codes ppm_event_codes matches_wildcard (clear s)"
| after_enable:
    "reachable ppm_sc_codes ppm_event_codes matches_wildcard s \<Longrightarrow>
     reachable ppm_sc_codes ppm_event_codes matches_wildcard
       (enable matches_wildcard pattern match ruleset_id s)"
| after_disable:
    "reachable ppm_sc_codes ppm_event_codes matches_wildcard s \<Longrightarrow>
     reachable ppm_sc_codes ppm_event_codes matches_wildcard
       (disable matches_wildcard pattern match ruleset_id s)"
| after_enable_tags:
    "reachable ppm_sc_codes ppm_event_codes matches_wildcard s \<Longrightarrow>
     reachable ppm_sc_codes ppm_event_codes matches_wildcard (enable_tags tgs ruleset_id s)"
| after_disable_tags:
    "reachable ppm_sc_codes ppm_event_codes matches_wildcard s \<Longrightarrow>
     reachable ppm_sc_codes ppm_event_codes matches_wildcard (disable_tags tgs ruleset_id s)"
| after_enabled_count:
    "reachable ppm_sc_codes ppm_event_codes matches_wildcard s \<Longrightarrow>
     reachable ppm_sc_codes ppm_event_codes matches_wildcard (snd (enabled_count ruleset_id s))"

subsection \<open>Concrete inputs\<close>

text \<open>
  Three rules named as in the tests of the specification, and three wrappers: the wrappers
  at addresses 1 and 3 are indexed under event type 5, the wrapper at address 2 has no
  event code and is a catch-all. The payload of an event is a string here.
\<close>

definition rule_a :: falco_rule where
  "rule_a = \<lparr>name = ''a'', tags = {|''net'', ''fs''|}, source = ''syscall''\<rparr>"

definition rule_ab :: falco_rule where
  "rule_ab = \<lparr>name = ''ab'', tags = {||}, source = ''syscall''\<rparr>"

definition rule_abc :: falco_rule where
  "rule_abc = \<lparr>name = ''abc'', tags = {|''gui''|}, source = ''k8s_audit''\<rparr>"

definition ex_store :: "string wrapper_store" where
  "ex_store =
     (\<lambda>_. \<lparr>rule = rule_a, sc_codes = {||}, event_codes = {||}, filter_w = (\<lambda>_. False)\<rparr>)
       (1 := \<lparr>rule = rule_a, sc_codes = {||}, event_codes = {|5|},
              filter_w = (\<lambda>evt. payload evt = ''open'')\<rparr>,
        2 := \<lparr>rule = rule_ab, sc_codes = {||}, event_codes = {||},
              filter_w = (\<lambda>_. True)\<rparr>,
        3 := \<lparr>rule = rule_abc, sc_codes = {||}, event_codes = {|5|},
              filter_w = (\<lambda>_. True)\<rparr>)"

definition ex_index :: ruleset_filters where
  "ex_index =
     \<lparr>m_filter_by_event_type = [[], [], [], [], [], [1, 3]],
      m_filter_all_event_types = [2],
      m_filters = {|1, 2, 3|}\<rparr>"

definition ex_registry :: "string evttype_index_ruleset" where
  "ex_registry = \<lparr>wrappers = ex_store, m_rulesets = [ex_index], m_all_filters = {|1, 2, 3|}\<rparr>"

definition evt_open :: "string sinsp_evt" where
  "evt_open = \<lparr>get_type = 5, payload = ''open''\<rparr>"

definition evt_other :: "string sinsp_evt" where
  "evt_other = \<lparr>get_type = 7, payload = ''close''\<rparr>"

text \<open>An analyzer of conditions written as strings: it rejects the condition \<open>''bad''\<close>.\<close>

definition ex_sc_codes :: "string \<Rightarrow> sinsp_exception + nat fset" where
  "ex_sc_codes condition =
     (if condition = ''bad'' then Inl (Sinsp_exception ''unknown field'') else Inr {|2|})"

definition ex_event_codes :: "string \<Rightarrow> sinsp_exception + nat fset" where
  "ex_event_codes condition =
     (if condition = ''bad'' then Inl (Sinsp_exception ''unknown field'') else Inr {|5|})"

definition ex_wildcard :: "string \<Rightarrow> string \<Rightarrow> bool" where
  "ex_wildcard pattern nm = (pattern = ''*'')"

text \<open>
  What registration through \<^verbatim>\<open>add\<close> establishes for a registry: every registered wrapper
  has the async-event code among its event codes, the members of every ruleset are
  registered wrappers, and no ruleset has a catch-all wrapper.
\<close>

definition async_indexed :: "'p evttype_index_ruleset \<Rightarrow> bool" where
  "async_indexed s \<longleftrightarrow>
     (\<forall>wrap |\<in>| m_all_filters s. PPME_ASYNCEVENT_E |\<in>| event_codes (wrappers s wrap)) \<and>
     (\<forall>rf \<in> set (m_rulesets s).
        m_filters rf |\<subseteq>| m_all_filters s \<and> m_filter_all_event_types rf = [])"

text \<open>A registry built by the constructor, one \<^verbatim>\<open>add\<close> and one \<^verbatim>\<open>enable\<close>.\<close>

definition ex_reached :: "string evttype_index_ruleset" where
  "ex_reached =
     enable ex_wildcard [] exact 0
       (snd (add ex_sc_codes ex_event_codes 4 rule_abc (\<lambda>_. True) ''evt.type = open''
          \<lparr>wrappers = ex_store, m_rulesets = [], m_all_filters = {||}\<rparr>))"

section \<open>Dispatch within one ruleset\<close>

lemma run_every_eq:
  "run_every M evt ws found ms ev =
     (found \<or> (\<exists>w \<in> set ws. filter_w (M w) evt),
      ms @ map (\<lambda>w. rule (M w)) (filter (\<lambda>w. filter_w (M w) evt) ws),
      ev @ ws)"
  by (induction ws arbitrary: found ms ev) auto

lemma run_first_eq:
  "run_first M evt ws m ev =
     (case find (\<lambda>w. filter_w (M w) evt) ws of
        None \<Rightarrow> (False, m, ev @ ws)
      | Some w \<Rightarrow> (True, rule (M w), ev @ takeWhile (\<lambda>w. \<not> filter_w (M w) evt) ws @ [w]))"
  by (induction ws arbitrary: ev) (auto split: option.splits)

text \<open>
  Claim C1. All-matches form of \<^verbatim>\<open>ruleset_filters::run\<close>. Let the bucket be the list
  stored for the type of the event (empty when the type is beyond the vector). When some
  wrapper of the bucket accepts the event, the call returns true, the output is the input
  sequence followed by the rules of the accepting wrappers of the bucket in the order of the
  bucket, and the filters that were run are exactly those of the bucket: no catch-all
  filter is run and no catch-all rule is appended. When no wrapper of the bucket accepts,
  the whole bucket and then the whole catch-all list are run, the rules of the accepting
  catch-all wrappers are appended in order, and the call returns whether there was one.
\<close>

theorem all_matches_dispatch:
  "ruleset_filters_run_all M rf evt matches evaluated =
     (let bucket = (if get_type evt < length (m_filter_by_event_type rf)
                    then m_filter_by_event_type rf ! get_type evt else []);
          catch_all = m_filter_all_event_types rf;
          accepts = (\<lambda>wrap. filter_w (M wrap) evt);
          rules_of = (\<lambda>ws. map (\<lambda>wrap. rule (M wrap)) (filter accepts ws))
      in if \<exists>wrap \<in> set bucket. accepts wrap
         then (True, matches @ rules_of bucket, evaluated @ bucket)
         else (\<exists>wrap \<in> set catch_all. accepts wrap,
               matches @ rules_of catch_all, evaluated @ bucket @ catch_all))"
  unfolding ruleset_filters_run_all_def Let_def run_every_eq
  by (auto simp: filter_empty_conv)

theorem all_matches_dispatch_witness:
  "(\<exists>wrap \<in> set (m_filter_by_event_type ex_index ! get_type evt_open).
      filter_w (ex_store wrap) evt_open) \<and>
   ruleset_filters_run_all ex_store ex_index evt_open [] [] = (True, [rule_a, rule_abc], [1, 3]) \<and>
   ruleset_filters_run_all ex_store ex_index evt_other [] [] = (True, [rule_ab], [2])"
  using all_matches_dispatch [of ex_store ex_index evt_open "[]" "[]"]
    all_matches_dispatch [of ex_store ex_index evt_other "[]" "[]"]
  by (simp add: ex_store_def ex_index_def evt_open_def evt_other_def)

text \<open>
  Claim C2. Single-match form of \<^verbatim>\<open>ruleset_filters::run\<close>. The filters of the bucket
  are run in order up to the first that accepts the event: its rule is written to the
  output, the call returns true, and neither a later wrapper of the bucket nor a catch-all
  wrapper is run. When no wrapper of the bucket accepts (the bucket is empty when the type
  is beyond the vector), the catch-all list is run in order up to its first accepting
  wrapper, whose rule is the output. When none accepts, the call returns false and the
  output keeps its value.
\<close>

theorem single_match_dispatch:
  "ruleset_filters_run M rf evt match evaluated =
     (let bucket = (if get_type evt < length (m_filter_by_event_type rf)
                    then m_filter_by_event_type rf ! get_type evt else []);
          catch_all = m_filter_all_event_types rf;
          accepts = (\<lambda>wrap. filter_w (M wrap) evt);
          rejected = takeWhile (\<lambda>wrap. \<not> accepts wrap)
      in case find accepts bucket of
           Some wrap \<Rightarrow> (True, rule (M wrap), evaluated @ rejected bucket @ [wrap])
         | None \<Rightarrow>
             (case find accepts catch_all of
                Some wrap \<Rightarrow>
                  (True, rule (M wrap), evaluated @ bucket @ rejected catch_all @ [wrap])
              | None \<Rightarrow> (False, match, evaluated @ bucket @ catch_all)))"
  unfolding ruleset_filters_run_def Let_def run_first_eq
  by (auto split: option.splits)

theorem single_match_dispatch_witness:
  "ruleset_filters_run ex_store ex_index evt_open rule_ab [] = (True, rule_a, [1]) \<and>
   ruleset_filters_run ex_store ex_index evt_other rule_a [] = (True, rule_ab, [2]) \<and>
   ruleset_filters_run ex_store (ex_index\<lparr>m_filter_all_event_types := []\<rparr>) evt_other rule_a []
     = (False, rule_a, [])"
  using single_match_dispatch [of ex_store ex_index evt_open rule_ab "[]"]
    single_match_dispatch [of ex_store ex_index evt_other rule_a "[]"]
    single_match_dispatch [of ex_store "ex_index\<lparr>m_filter_all_event_types := []\<rparr>" evt_other rule_a "[]"]
  by (simp add: ex_store_def ex_index_def evt_open_def evt_other_def)

section \<open>The index of one ruleset\<close>

lemma set_bucket_of: "w \<in> set (bucket_of v t) \<longleftrightarrow> t < length v \<and> w \<in> set (v ! t)"
  by (simp add: bucket_of_def)

lemma distinct_bucket_of: "distinct (bucket_of v t) \<longleftrightarrow> (t < length v \<longrightarrow> distinct (v ! t))"
  by (simp add: bucket_of_def)

text \<open>The invariant, read bucket by bucket and wrapper by wrapper.\<close>

lemma ruleset_inv_iff:
  "ruleset_inv M rf \<longleftrightarrow>
     (\<forall>t wrap. wrap \<in> set (bucket_of (m_filter_by_event_type rf) t) \<longleftrightarrow>
        wrap |\<in>| m_filters rf \<and> t |\<in>| event_codes (M wrap)) \<and>
     (\<forall>wrap. wrap \<in> set (m_filter_all_event_types rf) \<longleftrightarrow>
        wrap |\<in>| m_filters rf \<and> event_codes (M wrap) = {||}) \<and>
     distinct (m_filter_all_event_types rf) \<and>
     (\<forall>t. distinct (bucket_of (m_filter_by_event_type rf) t))"
  (is "?L \<longleftrightarrow> ?B \<and> ?C \<and> ?D \<and> ?E")
proof
  assume L: ?L
  have B: ?B
  proof (intro allI iffI)
    fix t wrap assume "wrap \<in> set (bucket_of (m_filter_by_event_type rf) t)"
    with L show "wrap |\<in>| m_filters rf \<and> t |\<in>| event_codes (M wrap)"
      unfolding ruleset_inv_def set_bucket_of by blast
  next
    fix t wrap assume a: "wrap |\<in>| m_filters rf \<and> t |\<in>| event_codes (M wrap)"
    then have "event_codes (M wrap) \<noteq> {||}" by auto
    with a L show "wrap \<in> set (bucket_of (m_filter_by_event_type rf) t)"
      unfolding ruleset_inv_def set_bucket_of by (metis (full_types))
  qed
  have C: ?C
  proof (intro allI iffI)
    fix wrap assume "wrap \<in> set (m_filter_all_event_types rf)"
    with L show "wrap |\<in>| m_filters rf \<and> event_codes (M wrap) = {||}"
      unfolding ruleset_inv_def by blast
  next
    fix wrap assume "wrap |\<in>| m_filters rf \<and> event_codes (M wrap) = {||}"
    with L show "wrap \<in> set (m_filter_all_event_types rf)"
      unfolding ruleset_inv_def by (metis (full_types))
  qed
  from L have D: ?D and E: ?E
    unfolding ruleset_inv_def distinct_bucket_of by blast+
  from B C D E show "?B \<and> ?C \<and> ?D \<and> ?E" by blast
next
  assume R: "?B \<and> ?C \<and> ?D \<and> ?E"
  then have B: ?B and C: ?C and D: ?D and E: ?E by blast+
  have 1: "\<forall>wrap |\<in>| m_filters rf.
        if event_codes (M wrap) = {||} then wrap \<in> set (m_filter_all_event_types rf)
        else \<forall>t |\<in>| event_codes (M wrap).
               t < length (m_filter_by_event_type rf) \<and>
               wrap \<in> set (m_filter_by_event_type rf ! t)"
    using B C unfolding set_bucket_of by (metis (full_types))
  have 2: "\<forall>t < length (m_filter_by_event_type rf).
        \<forall>wrap \<in> set (m_filter_by_event_type rf ! t).
          wrap |\<in>| m_filters rf \<and> t |\<in>| event_codes (M wrap)"
    using B unfolding set_bucket_of by blast
  have 3: "\<forall>wrap \<in> set (m_filter_all_event_types rf).
        wrap |\<in>| m_filters rf \<and> event_codes (M wrap) = {||}"
    using C by blast
  have 5: "\<forall>t < length (m_filter_by_event_type rf). distinct (m_filter_by_event_type rf ! t)"
    using E unfolding distinct_bucket_of by blast
  from 1 2 3 D 5 show ?L unfolding ruleset_inv_def by blast
qed

text \<open>A wrapper is a member exactly when one of the lists holds it.\<close>

lemma ruleset_inv_member_iff:
  assumes "ruleset_inv M rf"
  shows "wrap |\<in>| m_filters rf \<longleftrightarrow>
     wrap \<in> set (m_filter_all_event_types rf) \<or>
     (\<exists>t < length (m_filter_by_event_type rf). wrap \<in> set (m_filter_by_event_type rf ! t))"
proof -
  from assms have B: "\<And>t. wrap \<in> set (bucket_of (m_filter_by_event_type rf) t) \<longleftrightarrow>
        wrap |\<in>| m_filters rf \<and> t |\<in>| event_codes (M wrap)"
    and C: "wrap \<in> set (m_filter_all_event_types rf) \<longleftrightarrow>
        wrap |\<in>| m_filters rf \<and> event_codes (M wrap) = {||}"
    unfolding ruleset_inv_iff by simp_all
  have "(\<exists>t < length (m_filter_by_event_type rf). wrap \<in> set (m_filter_by_event_type rf ! t))
      \<longleftrightarrow> (\<exists>t. wrap \<in> set (bucket_of (m_filter_by_event_type rf) t))"
    by (simp add: set_bucket_of)
  also have "\<dots> \<longleftrightarrow> wrap |\<in>| m_filters rf \<and> event_codes (M wrap) \<noteq> {||}"
    unfolding B by auto
  finally show ?thesis using C by auto
qed

lemma ruleset_inv_new: "ruleset_inv M new_ruleset_filters"
  by (simp add: ruleset_inv_def new_ruleset_filters_def)

lemma set_add_wrapper_to_list [simp]:
  "set (add_wrapper_to_list ws w) = insert w (set ws)"
  by (auto simp: add_wrapper_to_list_def)

lemma distinct_add_wrapper_to_list [simp]:
  "distinct (add_wrapper_to_list ws w) = distinct ws"
  by (auto simp: add_wrapper_to_list_def)

lemma set_remove_wrapper_from_list [simp]:
  "distinct ws \<Longrightarrow> set (remove_wrapper_from_list ws w) = set ws - {w}"
  by (auto simp: remove_wrapper_from_list_def)

lemma distinct_remove_wrapper_from_list [simp]:
  "distinct ws \<Longrightarrow> distinct (remove_wrapper_from_list ws w)"
  by (auto simp: remove_wrapper_from_list_def)

lemma bucket_of_add_filter_etype:
  "bucket_of (add_filter_etype w e v) t =
     (if t = e then add_wrapper_to_list (bucket_of v e) w else bucket_of v t)"
  by (auto simp: bucket_of_def add_filter_etype_def resize_def Let_def nth_append
      add_wrapper_to_list_def)

lemma bucket_of_fold_add:
  "distinct cs \<Longrightarrow> bucket_of (fold (add_filter_etype w) cs v) t =
     (if t \<in> set cs then add_wrapper_to_list (bucket_of v t) w else bucket_of v t)"
  by (induction cs arbitrary: v) (auto simp: bucket_of_add_filter_etype)

lemma bucket_of_remove_filter_etype:
  "bucket_of (remove_filter_etype w e v) t =
     (if t = e then remove_wrapper_from_list (bucket_of v e) w else bucket_of v t)"
  by (auto simp: bucket_of_def remove_filter_etype_def remove_wrapper_from_list_def)

lemma bucket_of_fold_remove:
  "distinct cs \<Longrightarrow> bucket_of (fold (remove_filter_etype w) cs v) t =
     (if t \<in> set cs then remove_wrapper_from_list (bucket_of v t) w else bucket_of v t)"
  by (induction cs arbitrary: v) (auto simp: bucket_of_remove_filter_etype)

lemma distinct_sorted_list_of_fset [simp]: "distinct (sorted_list_of_fset A)"
  by (simp add: sorted_list_of_fset.rep_eq)

lemma ruleset_inv_add_filter:
  assumes "ruleset_inv M rf"
  shows "ruleset_inv M (add_filter M p rf)"
  using assms unfolding ruleset_inv_iff
  by (auto simp: add_filter_def Let_def bucket_of_fold_add)

lemma ruleset_inv_remove_filter:
  assumes "ruleset_inv M rf"
  shows "ruleset_inv M (remove_filter M p rf)"
  using assms unfolding ruleset_inv_iff
  by (auto simp: remove_filter_def Let_def bucket_of_fold_remove)

lemma fold_add_present:
  "\<forall>t \<in> set cs. t < length v \<and> w \<in> set (v ! t) \<Longrightarrow> fold (add_filter_etype w) cs v = v"
  by (induction cs) (auto simp: add_filter_etype_def add_wrapper_to_list_def)

lemma fold_remove_absent:
  "\<forall>t \<in> set cs. t < length v \<longrightarrow> w \<notin> set (v ! t) \<Longrightarrow>
   fold (remove_filter_etype w) cs v = v"
  by (induction cs) (auto simp: remove_filter_etype_def remove_wrapper_from_list_def)

lemma add_filter_present:
  assumes "ruleset_inv M rf" "p |\<in>| m_filters rf"
  shows "add_filter M p rf = rf"
proof -
  from assms(1) have B: "\<And>t. p \<in> set (bucket_of (m_filter_by_event_type rf) t) \<longleftrightarrow>
        p |\<in>| m_filters rf \<and> t |\<in>| event_codes (M p)"
    and C: "p \<in> set (m_filter_all_event_types rf) \<longleftrightarrow>
        p |\<in>| m_filters rf \<and> event_codes (M p) = {||}"
    unfolding ruleset_inv_iff by simp_all
  show ?thesis
  proof (cases "event_codes (M p) = {||}")
    case True
    with C assms(2) have "p \<in> set (m_filter_all_event_types rf)"
      by simp
    with True assms(2) show ?thesis
      by (simp add: add_filter_def add_wrapper_to_list_def finsert_absorb)
  next
    case False
    have "\<forall>t \<in> set (sorted_list_of_fset (event_codes (M p))).
        t < length (m_filter_by_event_type rf) \<and> p \<in> set (m_filter_by_event_type rf ! t)"
      using B assms(2) by (simp add: set_bucket_of)
    then have "fold (add_filter_etype p) (sorted_list_of_fset (event_codes (M p)))
        (m_filter_by_event_type rf) = m_filter_by_event_type rf"
      by (rule fold_add_present)
    with False assms(2) show ?thesis
      by (simp add: add_filter_def finsert_absorb)
  qed
qed

lemma remove_filter_absent:
  assumes "ruleset_inv M rf" "p |\<notin>| m_filters rf"
  shows "remove_filter M p rf = rf"
proof -
  from assms(1) have B: "\<And>t. p \<in> set (bucket_of (m_filter_by_event_type rf) t) \<longleftrightarrow>
        p |\<in>| m_filters rf \<and> t |\<in>| event_codes (M p)"
    and C: "p \<in> set (m_filter_all_event_types rf) \<longleftrightarrow>
        p |\<in>| m_filters rf \<and> event_codes (M p) = {||}"
    unfolding ruleset_inv_iff by simp_all
  have members: "m_filters rf |-| {|p|} = m_filters rf"
    using assms(2) by auto
  show ?thesis
  proof (cases "event_codes (M p) = {||}")
    case True
    from C assms(2) have "p \<notin> set (m_filter_all_event_types rf)"
      by simp
    with True members show ?thesis
      by (simp add: remove_filter_def remove_wrapper_from_list_def)
  next
    case False
    have "\<forall>t \<in> set (sorted_list_of_fset (event_codes (M p))).
        t < length (m_filter_by_event_type rf) \<longrightarrow> p \<notin> set (m_filter_by_event_type rf ! t)"
      using B assms(2) by (simp add: set_bucket_of)
    then have "fold (remove_filter_etype p) (sorted_list_of_fset (event_codes (M p)))
        (m_filter_by_event_type rf) = m_filter_by_event_type rf"
      by (rule fold_remove_absent)
    with False members show ?thesis
      by (simp add: remove_filter_def)
  qed
qed

text \<open>
  Claim C7. The invariant of the index (see \<open>ruleset_inv\<close>: members with event codes are
  in the bucket of each of their codes, members without event codes are in the catch-all
  list, the lists hold nothing else, and no list repeats a wrapper; by
  \<open>ruleset_inv_member_iff\<close> a wrapper is then a member exactly when a list holds it) is
  kept by \<^verbatim>\<open>add_filter\<close> and by \<^verbatim>\<open>remove_filter\<close>. Adding a wrapper that is already
  a member and removing a wrapper that is not a member leave the index as it is.
\<close>

theorem ruleset_invariant_preserved:
  assumes "ruleset_inv M rf"
  shows "ruleset_inv M (add_filter M wrap rf) \<and>
         ruleset_inv M (remove_filter M wrap rf) \<and>
         (wrap |\<in>| m_filters rf \<longrightarrow> add_filter M wrap rf = rf) \<and>
         (wrap |\<notin>| m_filters rf \<longrightarrow> remove_filter M wrap rf = rf)"
  using assms ruleset_inv_add_filter ruleset_inv_remove_filter add_filter_present
    remove_filter_absent
  by blast

lemma ruleset_inv_ex_index: "ruleset_inv ex_store ex_index"
  by (simp add: ruleset_inv_def ex_store_def ex_index_def All_less_Suc)

theorem ruleset_invariant_preserved_witness:
  "ruleset_inv ex_store ex_index \<and>
   ruleset_inv ex_store (add_filter ex_store 4 ex_index) \<and>
   ruleset_inv ex_store (remove_filter ex_store 3 ex_index) \<and>
   add_filter ex_store 3 ex_index = ex_index \<and>
   remove_filter ex_store 4 ex_index = ex_index"
proof -
  have present: "3 |\<in>| m_filters ex_index" and absent: "4 |\<notin>| m_filters ex_index"
    by (simp_all add: ex_index_def)
  note at4 = ruleset_invariant_preserved [OF ruleset_inv_ex_index, of 4]
  note at3 = ruleset_invariant_preserved [OF ruleset_inv_ex_index, of 3]
  from at4 have a: "ruleset_inv ex_store (add_filter ex_store 4 ex_index)"
    by (rule conjunct1)
  from at3 have r: "ruleset_inv ex_store (remove_filter ex_store 3 ex_index)"
    by (rule conjunct1 [OF conjunct2])
  from at3 present have a3: "add_filter ex_store 3 ex_index = ex_index"
    by simp
  from at4 absent have r4: "remove_filter ex_store 4 ex_index = ex_index"
    by simp
  from ruleset_inv_ex_index a r a3 r4 show ?thesis
    by (intro conjI)
qed

section \<open>Registration\<close>

text \<open>
  Claim C3. A wrapper that \<^verbatim>\<open>add\<close> registers holds the rule and the filter it was given.
  For a rule whose source is not the syscall source the call always succeeds, the wrapper
  has no syscall codes and its event codes are exactly the plugin-event code and the
  async-event code, whatever the condition is. For a rule of the syscall source a
  successful call means that both walkers returned a set: the syscall codes are the set of
  the first walker and the event codes are the set of the second with the async-event
  code added. In both cases the async-event code is among the event codes.
\<close>

theorem add_derives_codes:
  "(source r \<noteq> syscall_source \<longrightarrow>
      fst (add ppm_sc_codes ppm_event_codes p r f condition s) = Inr ()) \<and>
   (fst (add ppm_sc_codes ppm_event_codes p r f condition s) = Inr () \<longrightarrow>
      (let s' = snd (add ppm_sc_codes ppm_event_codes p r f condition s);
           wrap = wrappers s' p
       in m_all_filters s' = finsert p (m_all_filters s) \<and>
          rule wrap = r \<and> filter_w wrap = f \<and>
          (if source r = syscall_source
           then ppm_sc_codes condition = Inr (sc_codes wrap) \<and>
                (\<exists>ec. ppm_event_codes condition = Inr ec \<and>
                      event_codes wrap = finsert PPME_ASYNCEVENT_E ec)
           else sc_codes wrap = {||} \<and>
                event_codes wrap = {|PPME_PLUGINEVENT_E, PPME_ASYNCEVENT_E|}) \<and>
          PPME_ASYNCEVENT_E |\<in>| event_codes wrap))"
  by (auto simp: add_def Let_def split: sum.splits sinsp_exception.splits)

theorem add_derives_codes_witness:
  "source rule_abc \<noteq> syscall_source \<and>
   fst (add ex_sc_codes ex_event_codes 4 rule_abc (\<lambda>_. True) ''bad'' ex_registry) = Inr () \<and>
   event_codes (wrappers (snd (add ex_sc_codes ex_event_codes 4 rule_abc (\<lambda>_. True) ''bad''
      ex_registry)) 4) = {|PPME_PLUGINEVENT_E, PPME_ASYNCEVENT_E|} \<and>
   fst (add ex_sc_codes ex_event_codes 4 rule_a (\<lambda>_. True) ''evt.type = open'' ex_registry)
     = Inr () \<and>
   sc_codes (wrappers (snd (add ex_sc_codes ex_event_codes 4 rule_a (\<lambda>_. True)
      ''evt.type = open'' ex_registry)) 4) = {|2|} \<and>
   event_codes (wrappers (snd (add ex_sc_codes ex_event_codes 4 rule_a (\<lambda>_. True)
      ''evt.type = open'' ex_registry)) 4) = {|PPME_ASYNCEVENT_E, 5|}"
  using add_derives_codes [of rule_abc ex_sc_codes ex_event_codes 4 "\<lambda>_. True" "''bad''"
      ex_registry]
    add_derives_codes [of rule_a ex_sc_codes ex_event_codes 4 "\<lambda>_. True" "''evt.type = open''"
      ex_registry]
  by (simp add: add_def rule_a_def rule_abc_def syscall_source_def ex_sc_codes_def
      ex_event_codes_def Let_def)

text \<open>
  Claim C4. When a walker of the condition raises during \<^verbatim>\<open>add\<close> (the first walker, or
  the second after the first returned), the call ends with a \<^verbatim>\<open>falco_exception\<close> that
  carries the message of the exception raised, and the registry after the call is the
  registry before it: the set of wrappers, the store and every ruleset are unchanged.
\<close>

theorem add_failure_atomic:
  assumes "source r = syscall_source"
    and "ppm_sc_codes condition = Inl (Sinsp_exception what) \<or>
         (ppm_sc_codes condition = Inr sc \<and>
          ppm_event_codes condition = Inl (Sinsp_exception what))"
  shows "add ppm_sc_codes ppm_event_codes p r f condition s = (Inl (Falco_exception what), s)"
  using assms by (auto simp: add_def Let_def)

theorem add_failure_atomic_witness:
  "source rule_a = syscall_source \<and>
   ex_sc_codes ''bad'' = Inl (Sinsp_exception ''unknown field'') \<and>
   add ex_sc_codes ex_event_codes 4 rule_a (\<lambda>_. True) ''bad'' ex_registry
     = (Inl (Falco_exception ''unknown field''), ex_registry)"
proof -
  have src: "source rule_a = syscall_source"
    by (simp add: rule_a_def syscall_source_def)
  have raised: "ex_sc_codes ''bad'' = Inl (Sinsp_exception ''unknown field'')"
    by (simp add: ex_sc_codes_def)
  from add_failure_atomic [of rule_a ex_sc_codes "''bad''" "''unknown field''" _ ex_event_codes,
      OF src disjI1 [OF raised]] src raised
  show ?thesis by simp
qed

section \<open>Selecting wrappers into a ruleset\<close>

lemma grow_rulesets_eq:
  "grow_rulesets rs ruleset_id =
     rs @ replicate (ruleset_id + 1 - length rs) new_ruleset_filters"
proof (induction rs ruleset_id rule: grow_rulesets.induct)
  case (1 rs ruleset_id)
  show ?case
  proof (cases "length rs < ruleset_id + 1")
    case True
    then have "ruleset_id + 1 - length rs =
        Suc (ruleset_id + 1 - length (rs @ [new_ruleset_filters]))"
      by simp
    with True 1 show ?thesis
      by (subst grow_rulesets.simps) (simp add: replicate_app_Cons_same)
  next
    case False
    then show ?thesis by (subst grow_rulesets.simps) simp
  qed
qed

lemma length_grow_rulesets: "length (grow_rulesets rs i) = max (length rs) (i + 1)"
  by (simp add: grow_rulesets_eq)

lemma nth_grow_rulesets:
  "j < length (grow_rulesets rs i) \<Longrightarrow>
   grow_rulesets rs i ! j = (if j < length rs then rs ! j else new_ruleset_filters)"
  by (auto simp: grow_rulesets_eq nth_append)

lemma string_find_Some_0: "string_find nm pat = Some 0 \<longleftrightarrow> prefix pat nm"
  by (cases nm) auto

lemma string_find_found: "string_find nm pat \<noteq> None \<longleftrightarrow> sublist pat nm"
  by (induction nm) (auto simp: sublist_Cons_right)

lemma name_matches_exact:
  "name_matches mw exact pattern nm \<longleftrightarrow> pattern = [] \<or> nm = pattern"
  by (auto simp: name_matches_def Let_def string_find_Some_0 prefix_def)

lemma name_matches_substring:
  "name_matches mw substring pattern nm \<longleftrightarrow> pattern = [] \<or> sublist pattern nm"
  by (simp add: name_matches_def string_find_found del: not_None_eq)

lemma name_matches_cases:
  "name_matches mw match pattern nm =
     (case match of
        exact \<Rightarrow> pattern = [] \<or> nm = pattern
      | substring \<Rightarrow> pattern = [] \<or> sublist pattern nm
      | wildcard \<Rightarrow> mw pattern nm)"
proof (cases match)
  case exact
  then show ?thesis by (simp add: name_matches_exact)
next
  case substring
  then show ?thesis by (simp add: name_matches_substring)
next
  case wildcard
  then show ?thesis by (simp add: name_matches_def)
qed

text \<open>
  The loop over the wrappers only touches the ruleset of the given id, and what it does
  there is the sequence of \<open>add_filter\<close> or \<open>remove_filter\<close> calls for the selected wrappers.
\<close>

lemma fold_selected:
  "i < length rs \<Longrightarrow>
   fold (\<lambda>wrap rs. if sel wrap then enable_disable_wrap M enabled i wrap rs else rs) ws rs =
   rs[i := fold (\<lambda>wrap. if enabled then add_filter M wrap else remove_filter M wrap)
             (filter sel ws) (rs ! i)]"
  by (induction ws arbitrary: rs) (auto simp: enable_disable_wrap_def)

lemma m_filters_add_filter [simp]: "m_filters (add_filter M w rf) = finsert w (m_filters rf)"
  by (simp add: add_filter_def Let_def)

lemma m_filters_remove_filter [simp]:
  "m_filters (remove_filter M w rf) = m_filters rf |-| {|w|}"
  by (simp add: remove_filter_def Let_def)

lemma m_filters_fold_add:
  "m_filters (fold (\<lambda>wrap. add_filter M wrap) ws rf) = m_filters rf |\<union>| fset_of_list ws"
  by (induction ws arbitrary: rf) auto

lemma m_filters_fold_remove:
  "m_filters (fold (\<lambda>wrap. remove_filter M wrap) ws rf) = m_filters rf |-| fset_of_list ws"
  by (induction ws arbitrary: rf) auto

lemma m_filters_fold_selected:
  "m_filters (fold (\<lambda>wrap. if enabled then add_filter M wrap else remove_filter M wrap) ws rf) =
     (if enabled then m_filters rf |\<union>| fset_of_list ws else m_filters rf |-| fset_of_list ws)"
  by (cases enabled) (simp_all add: m_filters_fold_add m_filters_fold_remove)

lemma fset_of_list_selected:
  "fset_of_list (filter sel (sorted_list_of_fset A)) = ffilter sel A"
  by simp

lemma select_loop:
  fixes rs :: "ruleset_filters list" and sel :: "nat \<Rightarrow> bool" and M :: "'p wrapper_store"
    and enabled :: bool and i :: nat and A :: "nat fset"
  defines "before \<equiv> (\<lambda>j. if j < length rs then rs ! j else new_ruleset_filters)"
  defines "rs' \<equiv> fold (\<lambda>wrap rs. if sel wrap then enable_disable_wrap M enabled i wrap rs else rs)
                    (sorted_list_of_fset A) (grow_rulesets rs i)"
  shows "length rs' = max (length rs) (i + 1)"
    and "rs' ! i = fold (\<lambda>wrap. if enabled then add_filter M wrap else remove_filter M wrap)
                     (filter sel (sorted_list_of_fset A)) (before i)"
    and "\<forall>j < length rs'. j \<noteq> i \<longrightarrow> rs' ! j = before j"
    and "m_filters (rs' ! i) =
           (if enabled then m_filters (before i) |\<union>| ffilter sel A
            else m_filters (before i) |-| ffilter sel A)"
proof -
  have i: "i < length (grow_rulesets rs i)"
    by (simp add: length_grow_rulesets)
  have rs': "rs' = (grow_rulesets rs i)
      [i := fold (\<lambda>wrap. if enabled then add_filter M wrap else remove_filter M wrap)
              (filter sel (sorted_list_of_fset A)) (grow_rulesets rs i ! i)]"
    unfolding rs'_def by (rule fold_selected [OF i])
  have at_i: "grow_rulesets rs i ! i = before i"
    unfolding before_def using nth_grow_rulesets [OF i] by simp
  show len: "length rs' = max (length rs) (i + 1)"
    by (simp add: rs' length_grow_rulesets)
  show sel: "rs' ! i = fold (\<lambda>wrap. if enabled then add_filter M wrap else remove_filter M wrap)
                     (filter sel (sorted_list_of_fset A)) (before i)"
    using i by (simp add: rs' at_i)
  show "\<forall>j < length rs'. j \<noteq> i \<longrightarrow> rs' ! j = before j"
  proof (intro allI impI)
    fix j assume j: "j < length rs'" and ne: "j \<noteq> i"
    from j have "j < length (grow_rulesets rs i)" by (simp add: rs')
    from nth_grow_rulesets [OF this] ne show "rs' ! j = before j"
      by (simp add: rs' before_def)
  qed
  show "m_filters (rs' ! i) =
           (if enabled then m_filters (before i) |\<union>| ffilter sel A
            else m_filters (before i) |-| ffilter sel A)"
    unfolding sel m_filters_fold_selected fset_of_list_selected ..
qed

text \<open>
  Claim C5. \<^verbatim>\<open>enable_disable\<close> selects a wrapper of the registry in exact mode when the
  pattern is empty or equals the name of its rule, in substring mode when the pattern is
  empty or occurs in the name (the wildcard mode asks the matcher). The store and the set
  of wrappers are unchanged, the vector of rulesets is grown to hold the id, the ruleset
  of the id is the result of calling \<^verbatim>\<open>add_filter\<close> (enable) or \<^verbatim>\<open>remove_filter\<close>
  (disable) for the selected wrappers in the order of the set, so that its members are
  the former members plus (minus) the selected wrappers, and every other ruleset is what
  it was (a fresh one where the vector was grown).
\<close>

theorem enable_disable_selects:
  "(let M = wrappers s;
        selects = (\<lambda>wrap. case match of
                     exact \<Rightarrow> pattern = [] \<or> name (rule (M wrap)) = pattern
                   | substring \<Rightarrow> pattern = [] \<or> sublist pattern (name (rule (M wrap)))
                   | wildcard \<Rightarrow> matches_wildcard pattern (name (rule (M wrap))));
        selected = filter selects (sorted_list_of_fset (m_all_filters s));
        before = (\<lambda>j. if j < length (m_rulesets s) then m_rulesets s ! j
                       else new_ruleset_filters);
        s' = enable_disable matches_wildcard pattern match enabled ruleset_id s
    in wrappers s' = M \<and> m_all_filters s' = m_all_filters s \<and>
       length (m_rulesets s') = max (length (m_rulesets s)) (ruleset_id + 1) \<and>
       m_rulesets s' ! ruleset_id =
         fold (\<lambda>wrap. if enabled then add_filter M wrap else remove_filter M wrap)
           selected (before ruleset_id) \<and>
       (\<forall>j < length (m_rulesets s'). j \<noteq> ruleset_id \<longrightarrow> m_rulesets s' ! j = before j) \<and>
       m_filters (m_rulesets s' ! ruleset_id) =
         (if enabled then m_filters (before ruleset_id) |\<union>| ffilter selects (m_all_filters s)
          else m_filters (before ruleset_id) |-| ffilter selects (m_all_filters s)))"
  unfolding Let_def enable_disable_def name_matches_cases
  using select_loop [where sel = "\<lambda>wrap. case match of
                     exact \<Rightarrow> pattern = [] \<or> name (rule (wrappers s wrap)) = pattern
                   | substring \<Rightarrow> pattern = [] \<or> sublist pattern (name (rule (wrappers s wrap)))
                   | wildcard \<Rightarrow> matches_wildcard pattern (name (rule (wrappers s wrap)))"
      and M = "wrappers s" and enabled = enabled and i = ruleset_id and A = "m_all_filters s"
      and rs = "m_rulesets s"]
  by simp

lemma ex_registry_fields:
  "wrappers ex_registry = ex_store"
  "m_all_filters ex_registry = {|1, 2, 3|}"
  "m_rulesets ex_registry = [ex_index]"
  by (simp_all add: ex_registry_def)

lemma ex_store_rules:
  "rule (ex_store (Suc 0)) = rule_a" "rule (ex_store 2) = rule_ab"
  "rule (ex_store 3) = rule_abc"
  by (simp_all add: ex_store_def)

lemma ffilter_finsert_if:
  "ffilter P (finsert x A) = (if P x then finsert x (ffilter P A) else ffilter P A)"
  "ffilter P {||} = {||}"
  by auto

theorem enable_disable_selects_witness:
  "m_filters (m_rulesets (enable_disable ex_wildcard ''ab'' exact True 1 ex_registry) ! 1)
     = {|2|} \<and>
   m_filters (m_rulesets (enable_disable ex_wildcard ''ab'' substring True 1 ex_registry) ! 1)
     = {|2, 3|} \<and>
   m_filters (m_rulesets (enable_disable ex_wildcard [] exact False 0 ex_registry) ! 0)
     = {||} \<and>
   m_rulesets (enable_disable ex_wildcard ''ab'' exact True 1 ex_registry) ! 0 = ex_index"
proof -
  note fields = ex_registry_fields ex_store_rules
  note folds = m_filters_fold_add m_filters_fold_remove ffilter_finsert_if
  have names: "name rule_a = ''a''" "name rule_ab = ''ab''" "name rule_abc = ''abc''"
    by (simp_all add: rule_a_def rule_ab_def rule_abc_def)
  have sub: "\<not> sublist ''ab'' ''a''" "sublist ''ab'' ''ab''" "sublist ''ab'' ''abc''"
    by (simp_all add: sublist_Cons_right)
  have members: "m_filters ex_index = {|1, 2, 3|}" "m_filters new_ruleset_filters = {||}"
    by (simp_all add: ex_index_def new_ruleset_filters_def)
  have 1: "m_filters (m_rulesets (enable_disable ex_wildcard ''ab'' exact True 1 ex_registry) ! 1)
      = {|2|}"
   and 4: "m_rulesets (enable_disable ex_wildcard ''ab'' exact True 1 ex_registry) ! 0 = ex_index"
    using enable_disable_selects [where s = ex_registry and match = exact and pattern = "''ab''"
      and matches_wildcard = ex_wildcard and enabled = True and ruleset_id = 1]
    unfolding Let_def fields by (simp_all add: names members folds fields)
  have 2: "m_filters (m_rulesets (enable_disable ex_wildcard ''ab'' substring True 1 ex_registry) ! 1)
      = {|2, 3|}"
    using enable_disable_selects [where s = ex_registry and match = substring
      and pattern = "''ab''" and matches_wildcard = ex_wildcard and enabled = True
      and ruleset_id = 1]
    unfolding Let_def fields by (simp add: names members sub folds fields)
  have 3: "m_filters (m_rulesets (enable_disable ex_wildcard [] exact False 0 ex_registry) ! 0)
      = {||}"
    using enable_disable_selects [where s = ex_registry and match = exact and pattern = "[]"
      and matches_wildcard = ex_wildcard and enabled = False and ruleset_id = 0]
    unfolding Let_def fields by (simp add: members folds fields)
  from 1 2 3 4 show ?thesis by (intro conjI)
qed

text \<open>
  Claim C6. \<^verbatim>\<open>enable_disable_tags\<close> selects the wrappers of the registry whose rule
  shares a tag with the given set. The ruleset of the id is the result of calling
  \<^verbatim>\<open>add_filter\<close> (enable) or \<^verbatim>\<open>remove_filter\<close> (disable) for exactly these wrappers:
  its members are the former members plus (minus) the selected wrappers, and a wrapper
  with no shared tag is neither added nor removed. The store, the set of wrappers and the
  other rulesets are unchanged.
\<close>

theorem enable_disable_tags_selects:
  "(let M = wrappers s;
        selects = (\<lambda>wrap. tgs |\<inter>| tags (rule (M wrap)) \<noteq> {||});
        selected = filter selects (sorted_list_of_fset (m_all_filters s));
        before = (\<lambda>j. if j < length (m_rulesets s) then m_rulesets s ! j
                       else new_ruleset_filters);
        s' = enable_disable_tags tgs enabled ruleset_id s
    in wrappers s' = M \<and> m_all_filters s' = m_all_filters s \<and>
       length (m_rulesets s') = max (length (m_rulesets s)) (ruleset_id + 1) \<and>
       m_rulesets s' ! ruleset_id =
         fold (\<lambda>wrap. if enabled then add_filter M wrap else remove_filter M wrap)
           selected (before ruleset_id) \<and>
       (\<forall>j < length (m_rulesets s'). j \<noteq> ruleset_id \<longrightarrow> m_rulesets s' ! j = before j) \<and>
       m_filters (m_rulesets s' ! ruleset_id) =
         (if enabled then m_filters (before ruleset_id) |\<union>| ffilter selects (m_all_filters s)
          else m_filters (before ruleset_id) |-| ffilter selects (m_all_filters s)))"
  unfolding Let_def enable_disable_tags_def
  using select_loop [where sel = "\<lambda>wrap. tgs |\<inter>| tags (rule (wrappers s wrap)) \<noteq> {||}"
      and M = "wrappers s" and enabled = enabled and i = ruleset_id and A = "m_all_filters s"
      and rs = "m_rulesets s"]
  by simp

theorem enable_disable_tags_selects_witness:
  "m_filters (m_rulesets (enable_disable_tags {|''fs'', ''mem''|} True 1 ex_registry) ! 1)
     = {|1|} \<and>
   m_filters (m_rulesets (enable_disable_tags {|''gui''|} True 1 ex_registry) ! 1)
     = {|3|} \<and>
   m_filters (m_rulesets (enable_disable_tags {|''gui''|} False 0 ex_registry) ! 0)
     = {|1, 2|} \<and>
   m_rulesets (enable_disable_tags {|''gui''|} True 1 ex_registry) ! 0 = ex_index"
proof -
  note fields = ex_registry_fields ex_store_rules
  note folds = m_filters_fold_add m_filters_fold_remove ffilter_finsert_if
  have tgs: "tags rule_a = {|''net'', ''fs''|}" "tags rule_ab = {||}" "tags rule_abc = {|''gui''|}"
    by (simp_all add: rule_a_def rule_ab_def rule_abc_def)
  have members: "m_filters ex_index = {|1, 2, 3|}" "m_filters new_ruleset_filters = {||}"
    by (simp_all add: ex_index_def new_ruleset_filters_def)
  have shared: "{|''fs'', ''mem''|} |\<inter>| {|''net'', ''fs''|} \<noteq> {||}"
    "{|''fs'', ''mem''|} |\<inter>| {|''gui''|} = {||}"
    "{|''gui''|} |\<inter>| {|''net'', ''fs''|} = {||}"
    by auto
  have 1: "m_filters (m_rulesets (enable_disable_tags {|''fs'', ''mem''|} True 1 ex_registry) ! 1)
      = {|1|}"
    using enable_disable_tags_selects [where s = ex_registry and tgs = "{|''fs'', ''mem''|}"
      and enabled = True and ruleset_id = 1]
    unfolding Let_def fields tgs by (simp add: members shared folds fields tgs)
  have 2: "m_filters (m_rulesets (enable_disable_tags {|''gui''|} True 1 ex_registry) ! 1) = {|3|}"
   and 4: "m_rulesets (enable_disable_tags {|''gui''|} True 1 ex_registry) ! 0 = ex_index"
    using enable_disable_tags_selects [where s = ex_registry and tgs = "{|''gui''|}"
      and enabled = True and ruleset_id = 1]
    unfolding Let_def fields tgs by (simp_all add: members shared folds fields tgs)
  have "{|1, 2, 3|} |-| {|3|} = {|1, 2 :: nat|}"
    by auto
  then have 3: "m_filters (m_rulesets (enable_disable_tags {|''gui''|} False 0 ex_registry) ! 0)
      = {|1, 2|}"
    using enable_disable_tags_selects [where s = ex_registry and tgs = "{|''gui''|}"
      and enabled = False and ruleset_id = 0]
    unfolding Let_def fields tgs by (simp add: members shared folds fields tgs)
  from 1 2 3 4 show ?thesis by (intro conjI)
qed

section \<open>Queries and reset\<close>

text \<open>
  Claim C8. When the ruleset id is not below the size of the vector of rulesets, both
  forms of the registry-level \<^verbatim>\<open>run\<close> return false; the registry, with its vector of
  rulesets, is returned as it was, and so are the output slot, the output sequence and
  the list of evaluated filters.
\<close>

theorem run_beyond_rulesets:
  assumes "length (m_rulesets s) \<le> ruleset_id"
  shows "run s evt match ruleset_id evaluated = ((False, match, evaluated), s) \<and>
         run_all s evt matches ruleset_id evaluated = ((False, matches, evaluated), s)"
  using assms by (simp add: run_def run_all_def)

theorem run_beyond_rulesets_witness:
  "length (m_rulesets ex_registry) \<le> 1 \<and>
   run ex_registry evt_open rule_ab 1 [] = ((False, rule_ab, []), ex_registry) \<and>
   run_all ex_registry evt_open [rule_ab] 1 [] = ((False, [rule_ab], []), ex_registry)"
proof -
  have beyond: "length (m_rulesets ex_registry) \<le> 1"
    by (simp add: ex_registry_def)
  from run_beyond_rulesets [OF beyond, of evt_open rule_ab "[]" "[rule_ab]"] beyond
  show ?thesis by simp
qed

lemma fold_list_update_const:
  "n \<le> length rs \<Longrightarrow> fold (\<lambda>i rs. rs[i := c]) [0 ..< n] rs = replicate n c @ drop n rs"
proof (induction n)
  case 0
  then show ?case by simp
next
  case (Suc n)
  then have "fold (\<lambda>i rs. rs[i := c]) [0 ..< Suc n] rs = (replicate n c @ drop n rs)[n := c]"
    by simp
  also have "\<dots> = replicate n c @ (drop n rs)[0 := c]"
    by (simp add: list_update_append)
  also have "(drop n rs)[0 := c] = c # drop (Suc n) rs"
    using Suc.prems by (simp add: Cons_nth_drop_Suc [symmetric])
  finally show ?case by (simp add: replicate_append_same)
qed

lemma clear_rulesets:
  "m_rulesets (clear s) = replicate (length (m_rulesets s)) new_ruleset_filters"
  by (simp add: clear_def fold_list_update_const)

lemma run_new_ruleset_filters:
  "ruleset_filters_run M new_ruleset_filters evt match evaluated = (False, match, evaluated)"
  "ruleset_filters_run_all M new_ruleset_filters evt matches evaluated =
     (False, matches, evaluated)"
  by (simp_all add: ruleset_filters_run_def ruleset_filters_run_all_def new_ruleset_filters_def)

lemma num_filters_new: "num_filters new_ruleset_filters = 0"
  by (simp add: num_filters_def new_ruleset_filters_def)

lemma enabled_count_clear: "fst (enabled_count ruleset_id (clear s)) = 0"
proof -
  have "ruleset_id < length (grow_rulesets (m_rulesets (clear s)) ruleset_id)"
    by (simp add: length_grow_rulesets)
  from nth_grow_rulesets [OF this]
  have "grow_rulesets (m_rulesets (clear s)) ruleset_id ! ruleset_id = new_ruleset_filters"
    by (simp add: clear_rulesets)
  then show ?thesis
    by (simp add: enabled_count_def Let_def num_filters_new)
qed

lemma run_clear:
  "run (clear s) evt match ruleset_id evaluated = ((False, match, evaluated), clear s)"
  "run_all (clear s) evt matches ruleset_id evaluated = ((False, matches, evaluated), clear s)"
  by (simp_all add: run_def run_all_def clear_rulesets run_new_ruleset_filters)

text \<open>
  Claim C9. After \<^verbatim>\<open>clear\<close> the set of registered wrappers is empty and every ruleset of
  the vector is a fresh empty one (the vector keeps its size). Then \<^verbatim>\<open>enabled_count\<close>
  returns 0 for every ruleset id, and both forms of \<^verbatim>\<open>run\<close> return false for every
  event and every ruleset id, with the outputs left as they were.
\<close>

theorem clear_resets:
  "m_all_filters (clear s) = {||} \<and>
   m_rulesets (clear s) = replicate (length (m_rulesets s)) new_ruleset_filters \<and>
   fst (enabled_count ruleset_id (clear s)) = 0 \<and>
   run (clear s) evt match ruleset_id evaluated = ((False, match, evaluated), clear s) \<and>
   run_all (clear s) evt matches ruleset_id evaluated = ((False, matches, evaluated), clear s)"
  by (simp add: clear_rulesets enabled_count_clear run_clear) (simp add: clear_def)

theorem clear_resets_witness:
  "fst (run ex_registry evt_open rule_ab 0 []) = (True, rule_a, [1]) \<and>
   fst (run (clear ex_registry) evt_open rule_ab 0 []) = (False, rule_ab, []) \<and>
   fst (enabled_count 0 (clear ex_registry)) = 0"
proof -
  have "fst (run ex_registry evt_open rule_ab 0 []) = (True, rule_a, [1])"
    by (simp add: run_def ex_registry_def ruleset_filters_run_def ex_index_def ex_store_def
        evt_open_def)
  with clear_resets [of ex_registry 0 evt_open rule_ab "[]"] show ?thesis
    by simp
qed

section \<open>Registries built by the public operations\<close>

lemma catch_all_add_filter:
  "event_codes (M w) \<noteq> {||} \<Longrightarrow>
   m_filter_all_event_types (add_filter M w rf) = m_filter_all_event_types rf"
  by (simp add: add_filter_def Let_def)

lemma catch_all_remove_filter:
  "m_filter_all_event_types rf = [] \<Longrightarrow> m_filter_all_event_types (remove_filter M w rf) = []"
  by (simp add: remove_filter_def Let_def remove_wrapper_from_list_def)

lemma catch_all_fold_selected:
  "\<forall>w \<in> set ws. event_codes (M w) \<noteq> {||} \<Longrightarrow> m_filter_all_event_types rf = [] \<Longrightarrow>
   m_filter_all_event_types
     (fold (\<lambda>wrap. if enabled then add_filter M wrap else remove_filter M wrap) ws rf) = []"
  by (induction ws arbitrary: rf) (simp_all add: catch_all_add_filter catch_all_remove_filter)

lemma async_indexed_select:
  assumes inv: "async_indexed s"
  shows "async_indexed
      (s\<lparr>m_rulesets :=
           fold (\<lambda>wrap rs. if sel wrap then enable_disable_wrap (wrappers s) enabled i wrap rs
                            else rs)
             (sorted_list_of_fset (m_all_filters s)) (grow_rulesets (m_rulesets s) i)\<rparr>)"
    (is "async_indexed (s\<lparr>m_rulesets := ?rs'\<rparr>)")
proof -
  let ?before = "\<lambda>j. if j < length (m_rulesets s) then m_rulesets s ! j else new_ruleset_filters"
  note loop = select_loop [where sel = sel and M = "wrappers s" and enabled = enabled and i = i
      and A = "m_all_filters s" and rs = "m_rulesets s"]
  have before: "m_filters (?before j) |\<subseteq>| m_all_filters s \<and>
      m_filter_all_event_types (?before j) = []" for j
    using inv by (simp add: async_indexed_def new_ruleset_filters_def)
  have codes: "\<forall>w \<in> set (filter sel (sorted_list_of_fset (m_all_filters s))).
      event_codes (wrappers s w) \<noteq> {||}"
    using inv by (auto simp: async_indexed_def)
  have "m_filters (?rs' ! j) |\<subseteq>| m_all_filters s \<and> m_filter_all_event_types (?rs' ! j) = []"
    if j: "j < length ?rs'" for j
  proof (cases "j = i")
    case True
    have "m_filters (?rs' ! i) |\<subseteq>| m_all_filters s"
      unfolding loop(4) using before [of i] by auto
    moreover have "m_filter_all_event_types (?rs' ! i) = []"
      unfolding loop(2) using codes before [of i] by (intro catch_all_fold_selected) simp_all
    ultimately show ?thesis using True by simp
  next
    case False
    with loop(3) j have "?rs' ! j = ?before j" by blast
    with before [of j] show ?thesis by simp
  qed
  then have "\<forall>rf \<in> set ?rs'.
      m_filters rf |\<subseteq>| m_all_filters s \<and> m_filter_all_event_types rf = []"
    unfolding all_set_conv_all_nth by blast
  with inv show ?thesis by (simp add: async_indexed_def)
qed

lemma async_indexed_add:
  assumes "async_indexed s"
  shows "async_indexed (snd (add ppm_sc_codes ppm_event_codes p r f condition s))"
  using assms
  by (auto simp: add_def Let_def async_indexed_def split: sum.splits sinsp_exception.splits)

lemma async_indexed_clear: "async_indexed (clear s)"
  by (simp add: async_indexed_def clear_rulesets new_ruleset_filters_def) (simp add: clear_def)

lemma async_indexed_enabled_count:
  assumes "async_indexed s"
  shows "async_indexed (snd (enabled_count ruleset_id s))"
  using assms
  by (auto simp: enabled_count_def Let_def async_indexed_def grow_rulesets_eq
      new_ruleset_filters_def)

lemma reachable_async_indexed:
  assumes "reachable ppm_sc_codes ppm_event_codes matches_wildcard s"
  shows "async_indexed s"
  using assms
proof (induction rule: reachable.induct)
  case (constructed M)
  show ?case by (simp add: async_indexed_def)
next
  case (after_add s p r f condition)
  from after_add.IH show ?case by (rule async_indexed_add)
next
  case (after_clear s)
  show ?case by (rule async_indexed_clear)
next
  case (after_enable s pattern match ruleset_id)
  from after_enable.IH show ?case
    unfolding enable_def enable_disable_def by (rule async_indexed_select)
next
  case (after_disable s pattern match ruleset_id)
  from after_disable.IH show ?case
    unfolding disable_def enable_disable_def by (rule async_indexed_select)
next
  case (after_enable_tags s tgs ruleset_id)
  from after_enable_tags.IH show ?case
    unfolding enable_tags_def enable_disable_tags_def Let_def by (rule async_indexed_select)
next
  case (after_disable_tags s tgs ruleset_id)
  from after_disable_tags.IH show ?case
    unfolding disable_tags_def enable_disable_tags_def Let_def by (rule async_indexed_select)
next
  case (after_enabled_count s ruleset_id)
  from after_enabled_count.IH show ?case by (rule async_indexed_enabled_count)
qed

lemma run_first_evaluated:
  "set (snd (snd (run_first M evt ws m ev))) \<subseteq> set ev \<union> set ws"
proof (induction ws arbitrary: ev)
  case Nil
  show ?case by simp
next
  case (Cons w ws)
  show ?case
  proof (cases "filter_w (M w) evt")
    case True
    then show ?thesis by auto
  next
    case False
    with Cons [of "ev @ [w]"] show ?thesis by auto
  qed
qed

lemma run_without_catch_all:
  assumes "m_filter_all_event_types rf = []"
  shows "set (snd (snd (ruleset_filters_run M rf evt match []))) \<subseteq>
           set (bucket_of (m_filter_by_event_type rf) (get_type evt))"
    and "set (snd (snd (ruleset_filters_run_all M rf evt matches []))) \<subseteq>
           set (bucket_of (m_filter_by_event_type rf) (get_type evt))"
proof -
  show "set (snd (snd (ruleset_filters_run M rf evt match []))) \<subseteq>
           set (bucket_of (m_filter_by_event_type rf) (get_type evt))"
    using assms run_first_evaluated [of M evt "bucket_of (m_filter_by_event_type rf) (get_type evt)"
        match "[]"]
    by (auto simp: ruleset_filters_run_def bucket_of_def split: prod.splits)
  show "set (snd (snd (ruleset_filters_run_all M rf evt matches []))) \<subseteq>
           set (bucket_of (m_filter_by_event_type rf) (get_type evt))"
    using assms
    by (auto simp: ruleset_filters_run_all_def bucket_of_def run_every_eq)
qed

text \<open>
  Claim C10. In every registry that the public operations build from the constructor,
  each registered wrapper has the async-event code among its event codes, so its event
  codes are not empty; the members of each ruleset are registered wrappers; the catch-all
  list of each ruleset is empty; and both forms of the dispatch over such a ruleset run
  only filters of the bucket of the event's type.
\<close>

theorem registered_never_catch_all:
  assumes "reachable ppm_sc_codes ppm_event_codes matches_wildcard s"
  shows "(\<forall>wrap |\<in>| m_all_filters s.
            PPME_ASYNCEVENT_E |\<in>| event_codes (wrappers s wrap) \<and>
            event_codes (wrappers s wrap) \<noteq> {||}) \<and>
         (\<forall>rf \<in> set (m_rulesets s).
            m_filters rf |\<subseteq>| m_all_filters s \<and>
            m_filter_all_event_types rf = [] \<and>
            set (snd (snd (ruleset_filters_run (wrappers s) rf evt match []))) \<subseteq>
              set (bucket_of (m_filter_by_event_type rf) (get_type evt)) \<and>
            set (snd (snd (ruleset_filters_run_all (wrappers s) rf evt matches []))) \<subseteq>
              set (bucket_of (m_filter_by_event_type rf) (get_type evt)))"
proof -
  from assms have inv: "async_indexed s"
    by (rule reachable_async_indexed)
  then have "\<forall>wrap |\<in>| m_all_filters s.
      PPME_ASYNCEVENT_E |\<in>| event_codes (wrappers s wrap) \<and>
      event_codes (wrappers s wrap) \<noteq> {||}"
    by (auto simp: async_indexed_def)
  moreover from inv have "\<forall>rf \<in> set (m_rulesets s).
      m_filters rf |\<subseteq>| m_all_filters s \<and> m_filter_all_event_types rf = []"
    by (simp add: async_indexed_def)
  ultimately show ?thesis
    using run_without_catch_all by blast
qed

theorem registered_never_catch_all_witness:
  "reachable ex_sc_codes ex_event_codes ex_wildcard ex_reached \<and>
   4 |\<in>| m_all_filters ex_reached \<and>
   4 |\<in>| m_filters (m_rulesets ex_reached ! 0) \<and>
   PPME_ASYNCEVENT_E |\<in>| event_codes (wrappers ex_reached 4) \<and>
   m_filter_all_event_types (m_rulesets ex_reached ! 0) = []"
proof -
  let ?s = "snd (add ex_sc_codes ex_event_codes 4 rule_abc (\<lambda>_. True) ''evt.type = open''
          \<lparr>wrappers = ex_store, m_rulesets = [], m_all_filters = {||}\<rparr>)"
  have r: "reachable ex_sc_codes ex_event_codes ex_wildcard ex_reached"
    unfolding ex_reached_def by (intro reachable.intros)
  have registered: "m_all_filters ?s = {|4|}" and none: "m_rulesets ?s = []"
    by (simp_all add: add_def Let_def rule_abc_def syscall_source_def)
  have all: "4 |\<in>| m_all_filters ex_reached"
    by (simp add: ex_reached_def enable_def enable_disable_def registered)
  note loop = select_loop [where sel = "\<lambda>wrap. name_matches ex_wildcard exact []
        (name (rule (wrappers ?s wrap)))" and M = "wrappers ?s" and enabled = True and i = 0
      and A = "m_all_filters ?s" and rs = "m_rulesets ?s"]
  have rulesets: "m_rulesets ex_reached =
      fold (\<lambda>wrap rs. if name_matches ex_wildcard exact [] (name (rule (wrappers ?s wrap)))
                       then enable_disable_wrap (wrappers ?s) True 0 wrap rs else rs)
        (sorted_list_of_fset (m_all_filters ?s)) (grow_rulesets (m_rulesets ?s) 0)"
    by (simp add: ex_reached_def enable_def enable_disable_def)
  from loop(1) have "length (m_rulesets ex_reached) = 1"
    unfolding rulesets [symmetric] by (simp add: none)
  then have member: "m_rulesets ex_reached ! 0 \<in> set (m_rulesets ex_reached)"
    by simp
  from loop(4) have enabled: "4 |\<in>| m_filters (m_rulesets ex_reached ! 0)"
    unfolding rulesets [symmetric] by (simp add: registered name_matches_exact)
  note inst = registered_never_catch_all [OF r, of evt_open rule_a "[]"]
  from inst all have async: "PPME_ASYNCEVENT_E |\<in>| event_codes (wrappers ex_reached 4)"
    by blast
  from inst member have "m_filter_all_event_types (m_rulesets ex_reached ! 0) = []"
    by blast
  with r all enabled async show ?thesis
    by (intro conjI)
qed


end
